theory Spec2Isabelle
  imports Complex_Main "HOL-Library.Word" "HOL-Library.Multiset"
begin

unbundle bit_operations_syntax

section \<open>Data model of the quadtree (quadtree.go)\<close>

text \<open>
  A physical object is reached through the interface \<open>PhysicalObject\<close>: four geometry
  getters and an \<open>Update\<close> hook. The model keeps the four values an object reports and a
  reference \<open>ref\<close> that stands for the object's identity: Go's \<open>one == target\<close> on two
  interface values holding pointers compares the referents, which is \<open>ref one = ref target\<close>
  here. The \<open>float64\<close> coordinates are idealised as real numbers (no rounding, no NaN, no
  infinities).
\<close>

datatype PhysicalObject = PhysicalObject
  (ref: nat) (oX: real) (oY: real) (oWidth: real) (oHeight: real)

datatype Bounds = Bounds (bX: real) (bY: real) (bWidth: real) (bHeight: real)

text \<open>
  A node of the tree. The four child pointers \<open>Nodes [4]*Quadtree\<close> are a list of optional
  subtrees (\<open>None\<close> is \<open>nil\<close>), \<open>m_ActiveNodes\<close> is the byte of active-child bits, and the
  Go \<open>int\<close> fields are integers (the counters stay between \<open>-1\<close> and \<open>128\<close>, the levels
  below the depth of the tree, so no machine arithmetic wraps). The back pointer
  \<open>m_parent\<close> is the position of a node inside its parent's \<open>Nodes\<close>.
\<close>

datatype Quadtree = Quadtree
  (qBounds: Bounds)
  (MaxObjects: int)
  (MaxLevels: int)
  (Level: int)
  (m_Objects: "PhysicalObject list")
  (Nodes: "Quadtree option list")
  (m_ActiveNodes: "8 word")
  (m_curLife: int)
  (m_maxLifespan: int)


subsection \<open>Geometry\<close>

definition Intersect :: "PhysicalObject \<Rightarrow> PhysicalObject \<Rightarrow> bool" where
  "Intersect one another =
     (let verticalOverlap = (\<bar>oY one - oY another\<bar> < (oHeight one + oHeight another) / 2);
          horizontalOverlap = (\<bar>oX one - oX another\<bar> < (oWidth one + oWidth another) / 2)
      in if oX one = oX another then verticalOverlap
         else if oY one = oY another then horizontalOverlap
         else verticalOverlap \<and> horizontalOverlap)"

definition Contains :: "Bounds \<Rightarrow> PhysicalObject \<Rightarrow> bool" where
  "Contains b obj =
     (oX obj \<ge> bX b \<and> oY obj \<ge> bY b \<and>
      oX obj + oWidth obj \<le> bX b + bWidth b \<and>
      oY obj + oHeight obj \<le> bY b + bHeight b)"

text \<open>
  The quadrant classification, written out twice in the source with the same text
  (\<open>Build\<close>, lines 106-132, and \<open>Insert\<close>, lines 275-297): \<open>-1\<close> when the object stays at
  the node.
\<close>

definition quadrantIndex :: "Bounds \<Rightarrow> PhysicalObject \<Rightarrow> int" where
  "quadrantIndex qt obj =
     (let horizontalMidpoint = bX qt + (bWidth qt / 2);
          verticalMidpoint = bY qt + (bHeight qt / 2);
          topPart = (oY obj \<ge> bY qt \<and> oY obj + oHeight obj \<le> verticalMidpoint);
          bottomPart = (oY obj \<ge> verticalMidpoint \<and> oY obj + oHeight obj \<le> bHeight qt);
          leftPart = (oX obj \<ge> bX qt \<and> oX obj + oWidth obj \<le> horizontalMidpoint);
          rightPart = (oX obj \<ge> horizontalMidpoint \<and> oX obj + oWidth obj \<le> bWidth qt)
      in if topPart then (if leftPart then 0 else if rightPart then 1 else - 1)
         else if bottomPart then (if leftPart then 2 else if rightPart then 3 else - 1)
         else - 1)"

text \<open>
  The classification as section 4.2 of the specification words it: the bottom and right
  tests compare with \<open>Y + Height\<close> and \<open>X + Width\<close>.
\<close>

definition specQuadrantIndex :: "Bounds \<Rightarrow> PhysicalObject \<Rightarrow> int" where
  "specQuadrantIndex qt obj =
     (let hmid = bX qt + bWidth qt / 2;
          vmid = bY qt + bHeight qt / 2;
          top = (oY obj \<ge> bY qt \<and> oY obj + oHeight obj \<le> vmid);
          bottom = (oY obj \<ge> vmid \<and> oY obj + oHeight obj \<le> bY qt + bHeight qt);
          left = (oX obj \<ge> bX qt \<and> oX obj + oWidth obj \<le> hmid);
          right = (oX obj \<ge> hmid \<and> oX obj + oWidth obj \<le> bX qt + bWidth qt)
      in if top \<and> left then 0 else if top \<and> right then 1
         else if bottom \<and> left then 2 else if bottom \<and> right then 3 else - 1)"

subsection \<open>Construction\<close>

definition CreateQuadtree :: "Bounds \<Rightarrow> int \<Rightarrow> int \<Rightarrow> PhysicalObject list \<Rightarrow> Quadtree" where
  "CreateQuadtree bounds maxObjectsBeforeSplit maxLevelsToSplit physicalObjects =
     Quadtree bounds maxObjectsBeforeSplit maxLevelsToSplit 0 physicalObjects
       [None, None, None, None] 0 (- 1) 64"

definition createSubtree :: "Quadtree \<Rightarrow> Bounds \<Rightarrow> PhysicalObject list \<Rightarrow> Quadtree" where
  "createSubtree qt bounds physicals =
     Quadtree bounds (MaxObjects qt) (MaxLevels qt) (Level qt + 1) physicals
       [None, None, None, None] 0 (- 1) 64"

text \<open>The bounds of quadrant \<open>i\<close>: \<open>subBounds\<close> of \<open>Build\<close>, the \<open>switch\<close> of \<open>Insert\<close>.\<close>

definition subBounds :: "Bounds \<Rightarrow> nat \<Rightarrow> Bounds" where
  "subBounds qt i =
     (if i = 0 then Bounds (bX qt) (bY qt) (bWidth qt / 2) (bHeight qt / 2)
      else if i = 1 then Bounds (bX qt + bWidth qt / 2) (bY qt) (bWidth qt / 2) (bHeight qt / 2)
      else if i = 2 then Bounds (bX qt) (bY qt + bHeight qt / 2) (bWidth qt / 2) (bHeight qt / 2)
      else Bounds (bX qt + bWidth qt / 2) (bY qt + bHeight qt / 2) (bWidth qt / 2) (bHeight qt / 2))"

text \<open>Assignments to single fields of a node.\<close>

fun set_Objects :: "PhysicalObject list \<Rightarrow> Quadtree \<Rightarrow> Quadtree" where
  "set_Objects objs (Quadtree b mo ml lv _ ns act cl mls) = Quadtree b mo ml lv objs ns act cl mls"

fun set_Nodes :: "Quadtree option list \<Rightarrow> Quadtree \<Rightarrow> Quadtree" where
  "set_Nodes ns (Quadtree b mo ml lv objs _ act cl mls) = Quadtree b mo ml lv objs ns act cl mls"

fun set_ActiveNodes :: "8 word \<Rightarrow> Quadtree \<Rightarrow> Quadtree" where
  "set_ActiveNodes act (Quadtree b mo ml lv objs ns _ cl mls) = Quadtree b mo ml lv objs ns act cl mls"

fun set_curLife :: "int \<Rightarrow> Quadtree \<Rightarrow> Quadtree" where
  "set_curLife cl (Quadtree b mo ml lv objs ns act _ mls) = Quadtree b mo ml lv objs ns act cl mls"

fun set_maxLifespan :: "int \<Rightarrow> Quadtree \<Rightarrow> Quadtree" where
  "set_maxLifespan mls (Quadtree b mo ml lv objs ns act cl _) = Quadtree b mo ml lv objs ns act cl mls"

text \<open>
  \<open>qt.Nodes[i] = child; qt.m_ActiveNodes |= 1 << uint(i)\<close>, the two assignments that
  \<open>Build\<close> and \<open>Insert\<close> make when they create a child.
\<close>

definition activate :: "nat \<Rightarrow> Quadtree \<Rightarrow> Quadtree \<Rightarrow> Quadtree" where
  "activate i child qt =
     set_ActiveNodes (m_ActiveNodes qt OR push_bit i 1) (set_Nodes ((Nodes qt)[i := Some child]) qt)"

text \<open>
  \<open>Build\<close>. The first loop leaves at the node the objects of index \<open>-1\<close>, in their order,
  and appends each other object to the bucket of its index; the second loop removes the
  bucketed elements from the node's list; the third creates, builds and activates a child
  for each bucket that is not empty, in index order.
\<close>

function Build :: "Quadtree \<Rightarrow> Quadtree" where
  "Build qt =
     (if int (length (m_Objects qt)) \<le> MaxObjects qt \<or> Level qt \<ge> MaxLevels qt then qt
      else
        fold (\<lambda>i q.
                let objects = filter (\<lambda>obj. quadrantIndex (qBounds qt) obj = int i) (m_Objects qt)
                in if length objects > 0
                   then activate i (Build (createSubtree qt (subBounds (qBounds qt) i) objects)) q
                   else q)
             [0, 1, 2, 3]
             (set_Objects (filter (\<lambda>obj. quadrantIndex (qBounds qt) obj = - 1) (m_Objects qt)) qt))"
  by pat_completeness auto
termination
  by (relation "measure (\<lambda>qt. nat (MaxLevels qt - Level qt))") (auto simp: createSubtree_def)

declare Build.simps [simp del]

text \<open>
  \<open>qt.Nodes[index]\<close> followed through: \<open>None\<close> when the index is out of range or the slot
  is \<open>nil\<close>, the two ways in which following the pointer panics.
\<close>

definition nodeAt :: "Quadtree option list \<Rightarrow> nat \<Rightarrow> Quadtree option" where
  "nodeAt ns i = (if i < length ns then ns ! i else None)"

lemma size_nodeAt: "nodeAt (Nodes qt) i = Some c \<Longrightarrow> size c < size qt"
proof -
  assume a: "nodeAt (Nodes qt) i = Some c"
  then have "Some c \<in> set (Nodes qt)"
    by (auto simp: nodeAt_def split: if_splits) (metis nth_mem)
  then have "size_option size (Some c) \<le> size_list (size_option size) (Nodes qt)"
    by (simp add: size_list_estimation')
  then show ?thesis by (cases qt) simp
qed

text \<open>
  \<open>Insert\<close>. The result is \<open>None\<close> when the call panics (an active bit whose child is
  \<open>nil\<close>). The recursive call runs on the child and the child it leaves is the child of
  the node afterwards.
\<close>

function Insert :: "Quadtree \<Rightarrow> PhysicalObject \<Rightarrow> Quadtree option" where
  "Insert qt physical =
     (if m_ActiveNodes qt = 0 then
        (let qt1 = set_Objects (m_Objects qt @ [physical]) qt
         in if int (length (m_Objects qt1)) < MaxObjects qt1 \<or> Level qt1 = MaxLevels qt1
            then Some qt1
            else Some (Build qt1))
      else
        (let index = quadrantIndex (qBounds qt) physical
         in if index = - 1 then Some (set_Objects (m_Objects qt @ [physical]) qt)
            else
              (let qt1 = (if m_ActiveNodes qt AND push_bit (nat index) 1 = 0
                          then activate (nat index)
                                 (createSubtree qt (subBounds (qBounds qt) (nat index)) []) qt
                          else qt)
               in case nodeAt (Nodes qt1) (nat index) of
                    None \<Rightarrow> None
                  | Some child \<Rightarrow>
                      (case Insert child physical of
                         None \<Rightarrow> None
                       | Some child' \<Rightarrow>
                           Some (set_Nodes ((Nodes qt1)[nat index := Some child']) qt1)))))"
  by pat_completeness auto
termination
proof (relation "measure (\<lambda>(qt, _). if m_ActiveNodes qt = 0 then 0 else 1 + size qt)",
    goal_cases)
  case 1
  show ?case by simp
next
  case (2 qt physical index qt1 child)
  show ?case
  proof (cases "m_ActiveNodes qt AND push_bit (nat index) 1 = 0")
    case True
    with 2 have "child = createSubtree qt (subBounds (qBounds qt) (nat index)) []"
      by (cases qt) (auto simp: activate_def nodeAt_def split: if_splits)
    with 2 show ?thesis by (simp add: createSubtree_def)
  next
    case False
    with 2 have "size child < size qt" by (simp add: size_nodeAt)
    with 2 show ?thesis by simp
  qed
qed

declare Insert.simps [simp del]

text \<open>
  The lifespan accounting of \<open>Update\<close>: its first statement (lines 164-182). The rest of
  \<open>Update\<close> (lines 184-243: the objects' hooks, the recursion into the children, the
  reparenting of the movers, the pruning) assigns \<open>m_curLife\<close> and \<open>m_maxLifespan\<close> of no
  existing node and is not part of this development.
\<close>

definition Update_lifespan :: "Quadtree \<Rightarrow> Quadtree" where
  "Update_lifespan qt =
     (if int (length (m_Objects qt)) = 0 then
        (if m_ActiveNodes qt = 0 then
           (if m_curLife qt = - 1 then
              (let qt1 = set_curLife (m_maxLifespan qt) qt
               in set_curLife (m_curLife qt1 - 1) qt1)
            else if m_curLife qt > 0 then set_curLife (m_curLife qt - 1) qt
            else qt)
         else qt)
      else
        (if m_curLife qt \<noteq> - 1 then
           (let qt1 = (if m_maxLifespan qt \<le> 64 then set_maxLifespan (m_maxLifespan qt * 2) qt
                       else qt)
            in set_curLife (- 1) qt1)
         else qt))"

section \<open>Traversals\<close>

text \<open>
  Every traversal ends with the same loop over the active children:
  \<open>flags := qt.m_ActiveNodes; index := 0; for flags > 0 { if flags&1 == 1 { body };
  flags >>= 1; index += 1 }\<close>, whose body calls the method on \<open>qt.Nodes[index]\<close>.
  \<open>for_active flags index ns body acc\<close> is that loop. \<open>ns\<close> are the slots
  \<open>qt.Nodes[index:]\<close> that the loop has not reached; the body receives the index, the child
  and the values \<open>acc\<close> that the loop carries, and gives back whether it returned from the
  method, the new values, and the child as the call left it, which is stored in the slot.
  The result is \<open>None\<close> when the loop panics: an active bit with a \<open>nil\<close> child, or with
  an index beyond the array.
\<close>

lemma unat_drop_bit_less:
  "(flags :: 8 word) > 0 \<Longrightarrow> unat (drop_bit (Suc 0) flags) < unat flags"
proof -
  assume "flags > 0"
  then have pos: "unat flags > 0" by (simp add: word_greater_zero_iff unat_gt_0)
  have "unat (drop_bit (Suc 0) flags) = unat flags div 2"
    by (simp add: drop_bit_eq_div unat_div)
  with pos show ?thesis by simp
qed

function for_active ::
  "8 word \<Rightarrow> nat \<Rightarrow> Quadtree option list \<Rightarrow>
   (nat \<Rightarrow> Quadtree \<Rightarrow> 'a \<Rightarrow> (bool \<times> 'a \<times> Quadtree) option) \<Rightarrow> 'a \<Rightarrow>
   ('a \<times> Quadtree option list) option" where
  "for_active flags index ns body acc =
     (if flags > 0 then
        (if flags AND 1 = 1 then
           (case ns of
              [] \<Rightarrow> None
            | None # rest \<Rightarrow> None
            | Some child # rest \<Rightarrow>
                (case body index child acc of
                   None \<Rightarrow> None
                 | Some (True, acc', child') \<Rightarrow> Some (acc', Some child' # rest)
                 | Some (False, acc', child') \<Rightarrow>
                     (case for_active (drop_bit 1 flags) (index + 1) rest body acc' of
                        None \<Rightarrow> None
                      | Some (res, rest') \<Rightarrow> Some (res, Some child' # rest'))))
         else
           (case for_active (drop_bit 1 flags) (index + 1) (tl ns) body acc of
              None \<Rightarrow> None
            | Some (res, rest') \<Rightarrow> Some (res, take 1 ns @ rest')))
      else Some (acc, ns))"
  by pat_completeness auto
termination
  by (relation "measure (\<lambda>(flags, _). unat flags)") (auto simp: unat_drop_bit_less)

declare for_active.simps [simp del]

lemma for_active_cong_aux:
  "(\<And>i c a. Some c \<in> set ns \<Longrightarrow> body i c a = body' i c a) \<Longrightarrow>
   for_active flags index ns body acc = for_active flags index ns body' acc"
proof (induction flags index ns body acc rule: for_active.induct)
  case (1 flags index ns body acc)
  have tl: "\<And>c. Some c \<in> set (tl ns) \<Longrightarrow> Some c \<in> set ns"
    by (cases ns) auto
  show ?case
    unfolding for_active.simps [of flags index ns body acc]
      for_active.simps [of flags index ns body' acc]
    using 1 tl
    by (auto split: list.splits option.splits bool.splits prod.splits)
qed

lemma for_active_cong [fundef_cong]:
  assumes "flags = flags'" "index = index'" "ns = ns'" "acc = acc'"
    and "\<And>i c a. Some c \<in> set ns' \<Longrightarrow> body i c a = body' i c a"
  shows "for_active flags index ns body acc = for_active flags' index' ns' body' acc'"
  using assms for_active_cong_aux [of ns' body body' flags' index' acc'] by simp

lemma size_child: "Some c \<in> set (Nodes qt) \<Longrightarrow> size c < size qt"
proof -
  assume "Some c \<in> set (Nodes qt)"
  then have "size_option size (Some c) \<le> size_list (size_option size) (Nodes qt)"
    by (simp add: size_list_estimation')
  then show ?thesis by (cases qt) simp
qed

text \<open>
  The first loop of \<open>Remove\<close>: the list without its first element identical to the
  target, \<open>None\<close> when no element is.
\<close>

fun removeObject :: "PhysicalObject \<Rightarrow> PhysicalObject list \<Rightarrow> PhysicalObject list option" where
  "removeObject target [] = None"
| "removeObject target (one # rest) =
     (if ref one = ref target then Some rest
      else map_option ((#) one) (removeObject target rest))"

text \<open>\<open>Remove\<close>: the boolean it returns and the node it leaves.\<close>

function Remove :: "Quadtree \<Rightarrow> PhysicalObject \<Rightarrow> (bool \<times> Quadtree) option" where
  "Remove qt target =
     (case removeObject target (m_Objects qt) of
        Some objs \<Rightarrow> Some (True, set_Objects objs qt)
      | None \<Rightarrow>
          (case for_active (m_ActiveNodes qt) 0 (Nodes qt)
                  (\<lambda>index child _.
                     case Remove child target of
                       None \<Rightarrow> None
                     | Some (removed, child') \<Rightarrow> Some (removed, removed, child'))
                  False of
             None \<Rightarrow> None
           | Some (removed, ns) \<Rightarrow> Some (removed, set_Nodes ns qt)))"
  by pat_completeness auto
termination
  by (relation "measure (\<lambda>(qt, _). size qt)") (auto simp: size_child)

declare Remove.simps [simp del]





text \<open>
  The scan of one node's objects in \<open>GetIntersectedObjectsRaw\<close> and in
  \<open>GetIntersectedObjects\<close>.
\<close>

definition collectIntersected ::
  "PhysicalObject \<Rightarrow> PhysicalObject list \<Rightarrow> PhysicalObject list \<Rightarrow> PhysicalObject list" where
  "collectIntersected target objs objects =
     fold (\<lambda>obj objects.
             if ref obj = ref target then objects
             else if Intersect target obj then objects @ [obj]
             else objects)
          objs objects"










section \<open>Invariant and stored objects\<close>

text \<open>
  The invariant that bit \<open>i\<close> of \<open>m_ActiveNodes\<close> is set exactly when \<open>Nodes[i]\<close> is not
  \<open>nil\<close>, for the slots \<open>ns\<close> from some index on and the flags shifted to that index.
\<close>

fun slots_ok :: "8 word \<Rightarrow> Quadtree option list \<Rightarrow> bool" where
  "slots_ok flags [] = (flags = 0)"
| "slots_ok flags (n # rest) = ((flags AND 1 = 1 \<longleftrightarrow> n \<noteq> None) \<and> slots_ok (drop_bit 1 flags) rest)"

text \<open>The invariant at every node of a tree, with the four slots of \<open>Nodes\<close>.\<close>

fun active_ok :: "Quadtree \<Rightarrow> bool" where
  "active_ok (Quadtree b mo ml lv objs ns act cl mls) =
     (length ns = 4 \<and> slots_ok act ns \<and>
      (\<forall>n \<in> set ns. case n of None \<Rightarrow> True | Some c \<Rightarrow> active_ok c))"

text \<open>
  The loop over the children as it runs when the invariant holds: over the slots that
  are not \<open>nil\<close>, in index order.
\<close>

fun for_slots ::
  "nat \<Rightarrow> Quadtree option list \<Rightarrow>
   (nat \<Rightarrow> Quadtree \<Rightarrow> 'a \<Rightarrow> (bool \<times> 'a \<times> Quadtree) option) \<Rightarrow> 'a \<Rightarrow>
   ('a \<times> Quadtree option list) option" where
  "for_slots index [] body acc = Some (acc, [])"
| "for_slots index (None # rest) body acc =
     (case for_slots (index + 1) rest body acc of
        None \<Rightarrow> None
      | Some (res, rest') \<Rightarrow> Some (res, None # rest'))"
| "for_slots index (Some child # rest) body acc =
     (case body index child acc of
        None \<Rightarrow> None
      | Some (True, acc', child') \<Rightarrow> Some (acc', Some child' # rest)
      | Some (False, acc', child') \<Rightarrow>
          (case for_slots (index + 1) rest body acc' of
             None \<Rightarrow> None
           | Some (res, rest') \<Rightarrow> Some (res, Some child' # rest')))"

text \<open>
  The objects stored in a tree, in depth-first order: the node's own list front to back,
  then the children in index order.
\<close>

fun dfs_objects :: "Quadtree \<Rightarrow> PhysicalObject list" where
  "dfs_objects (Quadtree b mo ml lv objs ns act cl mls) =
     objs @ concat (map (\<lambda>n. case n of None \<Rightarrow> [] | Some c \<Rightarrow> dfs_objects c) ns)"


text \<open>
  The object lists of the nodes of a tree, one list for each node, in depth-first order;
  their concatenation is \<open>dfs_objects\<close>.
\<close>

fun node_lists :: "Quadtree \<Rightarrow> PhysicalObject list list" where
  "node_lists (Quadtree b mo ml lv objs ns act cl mls) =
     objs # concat (map (\<lambda>n. case n of None \<Rightarrow> [] | Some c \<Rightarrow> node_lists c) ns)"

text \<open>
  A tree without its objects: what is left are the bounds, thresholds, levels, child slots,
  active bits and lifespan counters of every node.
\<close>

fun skeleton :: "Quadtree \<Rightarrow> Quadtree" where
  "skeleton (Quadtree b mo ml lv objs ns act cl mls) =
     Quadtree b mo ml lv [] (map (map_option skeleton) ns) act cl mls"

text \<open>
  \<open>ls'\<close> is \<open>ls\<close> without the first element, in depth-first order, that is identical to
  the target.
\<close>

definition removed_first ::
  "PhysicalObject \<Rightarrow> PhysicalObject list list \<Rightarrow> PhysicalObject list list \<Rightarrow> bool" where
  "removed_first target ls ls' =
     (\<exists>pre l1 x l2 post.
        ls = pre @ (l1 @ x # l2) # post \<and> ref x = ref target \<and>
        (\<forall>y \<in> set (concat pre) \<union> set l1. ref y \<noteq> ref target) \<and>
        ls' = pre @ (l1 @ l2) # post)"

text \<open>What C8 says of \<open>Remove\<close> on one tree.\<close>

definition Remove_spec :: "Quadtree \<Rightarrow> PhysicalObject \<Rightarrow> bool" where
  "Remove_spec c target =
     (if \<exists>x \<in> set (dfs_objects c). ref x = ref target
      then \<exists>c'. Remove c target = Some (True, c') \<and> skeleton c' = skeleton c \<and>
                removed_first target (node_lists c) (node_lists c')
      else Remove c target = Some (False, c))"



text \<open>
  With the classification of the source: every object held directly by a node that has an
  active child has index \<open>-1\<close>.
\<close>

fun straddle_ok :: "Quadtree \<Rightarrow> bool" where
  "straddle_ok (Quadtree b mo ml lv objs ns act cl mls) =
     ((act \<noteq> 0 \<longrightarrow> (\<forall>obj \<in> set objs. quadrantIndex b obj = - 1)) \<and>
      (\<forall>n \<in> set ns. case n of None \<Rightarrow> True | Some c \<Rightarrow> straddle_ok c))"

section \<open>Properties\<close>

subsection \<open>Field assignments\<close>

lemma sel_set_Objects [simp]:
  "qBounds (set_Objects objs qt) = qBounds qt" "MaxObjects (set_Objects objs qt) = MaxObjects qt"
  "MaxLevels (set_Objects objs qt) = MaxLevels qt" "Level (set_Objects objs qt) = Level qt"
  "m_Objects (set_Objects objs qt) = objs" "Nodes (set_Objects objs qt) = Nodes qt"
  "m_ActiveNodes (set_Objects objs qt) = m_ActiveNodes qt"
  "m_curLife (set_Objects objs qt) = m_curLife qt"
  "m_maxLifespan (set_Objects objs qt) = m_maxLifespan qt"
  by (cases qt; simp)+

lemma sel_set_Nodes [simp]:
  "qBounds (set_Nodes ns qt) = qBounds qt" "MaxObjects (set_Nodes ns qt) = MaxObjects qt"
  "MaxLevels (set_Nodes ns qt) = MaxLevels qt" "Level (set_Nodes ns qt) = Level qt"
  "m_Objects (set_Nodes ns qt) = m_Objects qt" "Nodes (set_Nodes ns qt) = ns"
  "m_ActiveNodes (set_Nodes ns qt) = m_ActiveNodes qt"
  "m_curLife (set_Nodes ns qt) = m_curLife qt"
  "m_maxLifespan (set_Nodes ns qt) = m_maxLifespan qt"
  by (cases qt; simp)+

lemma sel_set_ActiveNodes [simp]:
  "qBounds (set_ActiveNodes a qt) = qBounds qt" "MaxObjects (set_ActiveNodes a qt) = MaxObjects qt"
  "MaxLevels (set_ActiveNodes a qt) = MaxLevels qt" "Level (set_ActiveNodes a qt) = Level qt"
  "m_Objects (set_ActiveNodes a qt) = m_Objects qt" "Nodes (set_ActiveNodes a qt) = Nodes qt"
  "m_ActiveNodes (set_ActiveNodes a qt) = a"
  "m_curLife (set_ActiveNodes a qt) = m_curLife qt"
  "m_maxLifespan (set_ActiveNodes a qt) = m_maxLifespan qt"
  by (cases qt; simp)+

lemma sel_activate [simp]:
  "qBounds (activate i c qt) = qBounds qt" "MaxObjects (activate i c qt) = MaxObjects qt"
  "MaxLevels (activate i c qt) = MaxLevels qt" "Level (activate i c qt) = Level qt"
  "m_Objects (activate i c qt) = m_Objects qt"
  "m_curLife (activate i c qt) = m_curLife qt"
  "m_maxLifespan (activate i c qt) = m_maxLifespan qt"
  by (simp_all add: activate_def)

lemma set_Objects_same [simp]: "set_Objects (m_Objects qt) qt = qt"
  by (cases qt) simp

lemma set_Nodes_same [simp]: "set_Nodes (Nodes qt) qt = qt"
  by (cases qt) simp

lemmas eval_defs = Insert.simps Build.simps Update_lifespan_def CreateQuadtree_def
  createSubtree_def quadrantIndex_def specQuadrantIndex_def subBounds_def activate_def
  nodeAt_def Let_def

subsection \<open>Build\<close>

lemma Build_unsplit:
  "int (length (m_Objects qt)) \<le> MaxObjects qt \<or> Level qt \<ge> MaxLevels qt \<Longrightarrow> Build qt = qt"
  by (simp add: Build.simps)

text \<open>The fields that the third loop of \<open>Build\<close> leaves alone.\<close>

lemma fold_activate_fields:
  "qBounds (fold (\<lambda>i q. if P i then activate i (f i) q else q) is qt) = qBounds qt \<and>
   MaxObjects (fold (\<lambda>i q. if P i then activate i (f i) q else q) is qt) = MaxObjects qt \<and>
   MaxLevels (fold (\<lambda>i q. if P i then activate i (f i) q else q) is qt) = MaxLevels qt \<and>
   Level (fold (\<lambda>i q. if P i then activate i (f i) q else q) is qt) = Level qt \<and>
   m_Objects (fold (\<lambda>i q. if P i then activate i (f i) q else q) is qt) = m_Objects qt"
  by (induction "is" arbitrary: qt) auto

lemma Build_fields:
  "qBounds (Build qt) = qBounds qt \<and> MaxObjects (Build qt) = MaxObjects qt \<and>
   MaxLevels (Build qt) = MaxLevels qt \<and> Level (Build qt) = Level qt"
  unfolding Build.simps [of qt] Let_def
  using fold_activate_fields by simp

lemma Build_Objects:
  "m_Objects (Build qt) =
     (if int (length (m_Objects qt)) \<le> MaxObjects qt \<or> Level qt \<ge> MaxLevels qt
      then m_Objects qt
      else filter (\<lambda>obj. quadrantIndex (qBounds qt) obj = - 1) (m_Objects qt))"
  unfolding Build.simps [of qt] Let_def
  using fold_activate_fields by simp

text \<open>
  C9. A second \<open>Build\<close> changes nothing: the objects that the first one left at the node
  all have index \<open>-1\<close>, so the second one finds no object to move and no child to create.
\<close>

theorem Build_idempotent: "Build (Build qt) = Build qt"
proof (cases "int (length (m_Objects (Build qt))) \<le> MaxObjects (Build qt)
              \<or> Level (Build qt) \<ge> MaxLevels (Build qt)")
  case True
  then show ?thesis by (rule Build_unsplit)
next
  case False
  let ?r = "Build qt"
  have split: "\<not> (int (length (m_Objects qt)) \<le> MaxObjects qt \<or> Level qt \<ge> MaxLevels qt)"
    using False Build_unsplit [of qt] by auto
  have objs: "m_Objects ?r = filter (\<lambda>obj. quadrantIndex (qBounds qt) obj = - 1) (m_Objects qt)"
    using split by (simp add: Build_Objects)
  have b: "qBounds ?r = qBounds qt" by (simp add: Build_fields)
  have empty: "\<And>i. filter (\<lambda>obj. quadrantIndex (qBounds ?r) obj = int i) (m_Objects ?r) = []"
    by (auto simp: objs b filter_empty_conv)
  have keep: "filter (\<lambda>obj. quadrantIndex (qBounds ?r) obj = - 1) (m_Objects ?r) = m_Objects ?r"
    by (simp add: objs b)
  show ?thesis
    by (subst Build.simps) (simp add: False empty keep Let_def del: One_nat_def)
qed

theorem Build_idempotent_witness:
  "Build (Build (CreateQuadtree (Bounds 0 0 2 2) 1 1
      [PhysicalObject 0 0 0 1 1, PhysicalObject 1 1 0 1 1, PhysicalObject 2 0 1 1 1]))
   = Build (CreateQuadtree (Bounds 0 0 2 2) 1 1
      [PhysicalObject 0 0 0 1 1, PhysicalObject 1 1 0 1 1, PhysicalObject 2 0 1 1 1])"
  using Build_idempotent [of "CreateQuadtree (Bounds 0 0 2 2) 1 1
      [PhysicalObject 0 0 0 1 1, PhysicalObject 1 1 0 1 1, PhysicalObject 2 0 1 1 1]"]
  by simp

subsection \<open>Insert at a childless node\<close>

text \<open>
  C5. At a node without active children \<open>Insert\<close> appends the object and the result is
  the appended node built when the new count exceeds \<open>MaxObjects\<close> and the level is below
  \<open>MaxLevels\<close>, and the appended node itself otherwise. The guard of the source, which
  differs, gives the same results: in every case the result is \<open>Build\<close> of the appended
  node, which leaves the node as it is at or below the thresholds.
\<close>

theorem Insert_childless:
  assumes "m_ActiveNodes qt = 0"
  shows "Insert qt obj =
           Some (if int (length (m_Objects qt)) + 1 > MaxObjects qt \<and> Level qt < MaxLevels qt
                 then Build (set_Objects (m_Objects qt @ [obj]) qt)
                 else set_Objects (m_Objects qt @ [obj]) qt)
         \<and> Insert qt obj = Some (Build (set_Objects (m_Objects qt @ [obj]) qt))
         \<and> Nodes (set_Objects (m_Objects qt @ [obj]) qt) = Nodes qt
         \<and> m_ActiveNodes (set_Objects (m_Objects qt @ [obj]) qt) = 0"
  unfolding Insert.simps [of qt obj]
  using assms by (auto simp: Let_def Build_unsplit)

theorem Insert_childless_witness:
  "Insert (CreateQuadtree (Bounds 0 0 4 4) 1 10 []) (PhysicalObject 0 0 0 1 1)
     = Some (CreateQuadtree (Bounds 0 0 4 4) 1 10 [PhysicalObject 0 0 0 1 1])"
  using Insert_childless [of "CreateQuadtree (Bounds 0 0 4 4) 1 10 []" "PhysicalObject 0 0 0 1 1"]
  by (simp add: CreateQuadtree_def)

subsection \<open>Intersect\<close>

text \<open>
  C7, as amended. \<open>Intersect\<close> is the vertical test alone when the two \<open>X\<close> are equal,
  the horizontal test alone when only the two \<open>Y\<close> are equal, and both tests otherwise,
  each test a strict comparison of a coordinate difference with the half-sum of the
  extents. Two boxes do not intersect when a coordinate difference that is not zero
  equals the corresponding half-sum of extents.
\<close>

theorem Intersect_cases_touching:
  "(Intersect a b =
      (if oX a = oX b then \<bar>oY a - oY b\<bar> < (oHeight a + oHeight b) / 2
       else if oY a = oY b then \<bar>oX a - oX b\<bar> < (oWidth a + oWidth b) / 2
       else \<bar>oY a - oY b\<bar> < (oHeight a + oHeight b) / 2 \<and>
            \<bar>oX a - oX b\<bar> < (oWidth a + oWidth b) / 2))
   \<and> ((oX a \<noteq> oX b \<and> \<bar>oX a - oX b\<bar> = (oWidth a + oWidth b) / 2) \<or>
        (oY a \<noteq> oY b \<and> \<bar>oY a - oY b\<bar> = (oHeight a + oHeight b) / 2)
        \<longrightarrow> \<not> Intersect a b)"
  by (auto simp add: Intersect_def Let_def)

theorem Intersect_cases_touching_witness:
  "\<bar>oX (PhysicalObject 0 0 0 1 1) - oX (PhysicalObject 1 1 0 1 1)\<bar>
     = (oWidth (PhysicalObject 0 0 0 1 1) + oWidth (PhysicalObject 1 1 0 1 1)) / 2
   \<and> \<not> Intersect (PhysicalObject 0 0 0 1 1) (PhysicalObject 1 1 0 1 1)"
  using Intersect_cases_touching [of "PhysicalObject 0 0 0 1 1" "PhysicalObject 1 1 0 1 1"]
  by simp

text \<open>
  C7 as it is stated fails: two boxes of width zero on one vertical line, which overlap
  vertically, have a horizontal difference equal to the half-sum of their widths (both
  zero), and \<open>Intersect\<close> is true of them.
\<close>

theorem Intersect_touching_counterexample:
  "\<not> (\<forall>a b. (\<bar>oX a - oX b\<bar> = (oWidth a + oWidth b) / 2 \<or>
               \<bar>oY a - oY b\<bar> = (oHeight a + oHeight b) / 2)
              \<longrightarrow> \<not> Intersect a b)"
proof
  assume h: "\<forall>a b. (\<bar>oX a - oX b\<bar> = (oWidth a + oWidth b) / 2 \<or>
                    \<bar>oY a - oY b\<bar> = (oHeight a + oHeight b) / 2)
                   \<longrightarrow> \<not> Intersect a b"
  have "\<not> Intersect (PhysicalObject 0 0 0 0 2) (PhysicalObject 1 0 1 0 2)"
    using h [rule_format, of "PhysicalObject 0 0 0 0 2" "PhysicalObject 1 0 1 0 2"] by simp
  then show False by (simp add: Intersect_def)
qed

subsection \<open>Quadrant classification\<close>

text \<open>
  C1 at a node whose bounds start above the origin, \<open>(0, -4, 4, 4)\<close>, and the object
  \<open>(0, -2, 1, 3)\<close>, which reaches below the node: the source compares the object's lower
  edge with \<open>qt.Height = 4\<close> and assigns the bottom-left quadrant, index 2, although the
  lower edge, at 1, lies below the node's, at \<open>qt.Y + qt.Height = 0\<close>. The classification
  of the specification gives \<open>-1\<close> there. \<open>Build\<close> on a root with these bounds moves the
  object into the child of quadrant 2, whose bounds \<open>(0, -2, 2, 2)\<close> do not contain it.
\<close>

theorem quadrantIndex_bottom_beyond_node:
  "quadrantIndex (Bounds 0 (- 4) 4 4) (PhysicalObject 0 0 (- 2) 1 3) = 2
   \<and> \<not> (oY (PhysicalObject 0 0 (- 2) 1 3) + oHeight (PhysicalObject 0 0 (- 2) 1 3)
          \<le> bY (Bounds 0 (- 4) 4 4) + bHeight (Bounds 0 (- 4) 4 4))
   \<and> specQuadrantIndex (Bounds 0 (- 4) 4 4) (PhysicalObject 0 0 (- 2) 1 3) = - 1
   \<and> Build (CreateQuadtree (Bounds 0 (- 4) 4 4) 1 10
         [PhysicalObject 0 0 (- 2) 1 3, PhysicalObject 1 0 (- 4) 1 1])
       = Quadtree (Bounds 0 (- 4) 4 4) 1 10 0 []
           [Some (Quadtree (Bounds 0 (- 4) 2 2) 1 10 1 [PhysicalObject 1 0 (- 4) 1 1]
                    [None, None, None, None] 0 (- 1) 64),
            None,
            Some (Quadtree (Bounds 0 (- 2) 2 2) 1 10 1 [PhysicalObject 0 0 (- 2) 1 3]
                    [None, None, None, None] 0 (- 1) 64),
            None]
           5 (- 1) 64
   \<and> \<not> Contains (Bounds 0 (- 2) 2 2) (PhysicalObject 0 0 (- 2) 1 3)"
  by (simp add: eval_defs Contains_def)

subsection \<open>Lifespan accounting\<close>

text \<open>
  The counters stay in the range that the integers of the model are read in: from a fresh
  node on, \<open>m_maxLifespan\<close> is 64 or 128 and \<open>m_curLife\<close> lies between \<open>-1\<close> and it.
\<close>

lemma Update_lifespan_range:
  "m_maxLifespan qt \<in> {64, 128} \<Longrightarrow> - 1 \<le> m_curLife qt \<Longrightarrow> m_curLife qt < m_maxLifespan qt \<Longrightarrow>
   m_maxLifespan (Update_lifespan qt) \<in> {64, 128} \<and> - 1 \<le> m_curLife (Update_lifespan qt) \<and>
   m_curLife (Update_lifespan qt) < m_maxLifespan (Update_lifespan qt)"
  by (cases qt) (auto simp: Update_lifespan_def Let_def)

text \<open>
  C2. At a node with no direct object and no active child the lifespan accounting turns
  a \<open>m_curLife\<close> of \<open>-1\<close> into \<open>m_maxLifespan - 1\<close>, decreases a positive one by one and
  leaves zero alone, and it changes no other field. At a freshly constructed node the
  counter becomes 63.
\<close>

theorem Update_lifespan_idle:
  assumes "m_Objects qt = []" and "m_ActiveNodes qt = 0"
  shows "(m_curLife qt = - 1 \<longrightarrow> m_curLife (Update_lifespan qt) = m_maxLifespan qt - 1) \<and>
         (m_curLife qt > 0 \<longrightarrow> m_curLife (Update_lifespan qt) = m_curLife qt - 1) \<and>
         (m_curLife qt = 0 \<longrightarrow> m_curLife (Update_lifespan qt) = 0) \<and>
         set_curLife (m_curLife qt) (Update_lifespan qt) = qt \<and>
         m_curLife (Update_lifespan (CreateQuadtree b mo ml [])) = 63"
  using assms
  by (cases qt) (auto simp: Update_lifespan_def CreateQuadtree_def Let_def)

theorem Update_lifespan_idle_witness:
  "m_curLife (Update_lifespan (Quadtree (Bounds 0 0 2 2) 1 10 1 [] [None, None, None, None] 0 (- 1) 128))
     = 127
   \<and> m_curLife (Update_lifespan (Quadtree (Bounds 0 0 2 2) 1 10 1 [] [None, None, None, None] 0 5 64))
     = 4
   \<and> m_curLife (Update_lifespan (Quadtree (Bounds 0 0 2 2) 1 10 1 [] [None, None, None, None] 0 0 64))
     = 0"
  using
    Update_lifespan_idle [of "Quadtree (Bounds 0 0 2 2) 1 10 1 [] [None, None, None, None] 0 (- 1) 128"]
    Update_lifespan_idle [of "Quadtree (Bounds 0 0 2 2) 1 10 1 [] [None, None, None, None] 0 5 64"]
    Update_lifespan_idle [of "Quadtree (Bounds 0 0 2 2) 1 10 1 [] [None, None, None, None] 0 0 64"]
  by simp

text \<open>
  C3 at a node that has an active child and no direct object. A fresh root is ticked once
  while it is empty (its counter is armed: 63) and then receives two objects that both fit
  its top-left quadrant: the second \<open>Insert\<close> builds, both objects move into the child,
  and the root is left with no direct object, one active child, \<open>m_curLife = 63\<close>. The
  lifespan accounting of the next \<open>Update\<close> then leaves \<open>m_curLife\<close> at 63 and
  \<open>m_maxLifespan\<close> at 64: the rescue branch is the \<open>else\<close> of the test of the object
  count alone.
\<close>

theorem Update_lifespan_children_only:
  "Insert (Update_lifespan (CreateQuadtree (Bounds 0 0 4 4) 1 10 [])) (PhysicalObject 0 0 0 1 1)
     = Some (Quadtree (Bounds 0 0 4 4) 1 10 0 [PhysicalObject 0 0 0 1 1]
               [None, None, None, None] 0 63 64)
   \<and> Insert (Quadtree (Bounds 0 0 4 4) 1 10 0 [PhysicalObject 0 0 0 1 1]
               [None, None, None, None] 0 63 64) (PhysicalObject 1 1 1 (1 / 2) (1 / 2))
     = Some (Quadtree (Bounds 0 0 4 4) 1 10 0 []
         [Some (Quadtree (Bounds 0 0 2 2) 1 10 1 []
            [Some (Quadtree (Bounds 0 0 1 1) 1 10 2 [PhysicalObject 0 0 0 1 1]
                     [None, None, None, None] 0 (- 1) 64),
             None, None,
             Some (Quadtree (Bounds 1 1 1 1) 1 10 2 [PhysicalObject 1 1 1 (1 / 2) (1 / 2)]
                     [None, None, None, None] 0 (- 1) 64)]
            9 (- 1) 64),
          None, None, None]
         1 63 64)
   \<and> Update_lifespan (Quadtree (Bounds 0 0 4 4) 1 10 0 []
         [Some (Quadtree (Bounds 0 0 2 2) 1 10 1 []
            [Some (Quadtree (Bounds 0 0 1 1) 1 10 2 [PhysicalObject 0 0 0 1 1]
                     [None, None, None, None] 0 (- 1) 64),
             None, None,
             Some (Quadtree (Bounds 1 1 1 1) 1 10 2 [PhysicalObject 1 1 1 (1 / 2) (1 / 2)]
                     [None, None, None, None] 0 (- 1) 64)]
            9 (- 1) 64),
          None, None, None]
         1 63 64)
     = Quadtree (Bounds 0 0 4 4) 1 10 0 []
         [Some (Quadtree (Bounds 0 0 2 2) 1 10 1 []
            [Some (Quadtree (Bounds 0 0 1 1) 1 10 2 [PhysicalObject 0 0 0 1 1]
                     [None, None, None, None] 0 (- 1) 64),
             None, None,
             Some (Quadtree (Bounds 1 1 1 1) 1 10 2 [PhysicalObject 1 1 1 (1 / 2) (1 / 2)]
                     [None, None, None, None] 0 (- 1) 64)]
            9 (- 1) 64),
          None, None, None]
         1 63 64"
  by (simp add: eval_defs)

subsection \<open>Objects held by a node that has children\<close>

text \<open>
  C6 on a root at the origin, \<open>(0, 0, 4, 4)\<close>, with \<open>MaxObjects = 1\<close> and ten levels, built
  from three objects of the bottom-right quadrant. The child of that quadrant has the
  bounds \<open>(2, 2, 2, 2)\<close>; its own \<open>Build\<close> compares lower and right edges with its
  \<open>Height\<close> and \<open>Width\<close>, 2, and keeps the object \<open>(3, 3, 1/2, 1/2)\<close> although it creates
  a child for the others. That object lies inside the bottom-right quadrant of the child:
  the classification of the specification gives 3 for it, not \<open>-1\<close>.
\<close>

theorem Build_keeps_classified_object:
  "Build (CreateQuadtree (Bounds 0 0 4 4) 1 10
      [PhysicalObject 0 2 2 (1 / 2) (1 / 2), PhysicalObject 1 (9 / 4) (9 / 4) (1 / 2) (1 / 2),
       PhysicalObject 2 3 3 (1 / 2) (1 / 2)])
   = Quadtree (Bounds 0 0 4 4) 1 10 0 []
       [None, None, None,
        Some (Quadtree (Bounds 2 2 2 2) 1 10 1 [PhysicalObject 2 3 3 (1 / 2) (1 / 2)]
          [Some (Quadtree (Bounds 2 2 1 1) 1 10 2
                   [PhysicalObject 1 (9 / 4) (9 / 4) (1 / 2) (1 / 2)]
                   [Some (Quadtree (Bounds 2 2 (1 / 2) (1 / 2)) 1 10 3
                            [PhysicalObject 0 2 2 (1 / 2) (1 / 2)]
                            [None, None, None, None] 0 (- 1) 64),
                    None, None, None]
                   1 (- 1) 64),
           None, None, None]
          1 (- 1) 64)]
       8 (- 1) 64
   \<and> specQuadrantIndex (Bounds 2 2 2 2) (PhysicalObject 2 3 3 (1 / 2) (1 / 2)) = 3
   \<and> quadrantIndex (Bounds 2 2 2 2) (PhysicalObject 2 3 3 (1 / 2) (1 / 2)) = - 1"
  by (simp add: eval_defs)

subsection \<open>The traversals over the depth-first list\<close>

lemma slots_ok_zero: "slots_ok 0 ns \<Longrightarrow> for_slots index ns body acc = Some (acc, ns)"
  by (induction ns arbitrary: index) (auto split: option.splits)

lemma for_active_zero: "for_active 0 index ns body acc = Some (acc, ns)"
  by (simp add: for_active.simps)

lemma for_active_slots:
  "slots_ok flags ns \<Longrightarrow> for_active flags index ns body acc = for_slots index ns body acc"
proof (induction ns arbitrary: flags index acc)
  case Nil
  then show ?case by (simp add: for_active_zero)
next
  case (Cons n rest)
  show ?case
  proof (cases "flags = 0")
    case True
    with Cons.prems show ?thesis
      using slots_ok_zero [of "n # rest" index body acc] by (simp add: for_active_zero)
  next
    case False
    then have pos: "flags > 0" by (simp add: word_greater_zero_iff)
    from Cons.prems have rest: "slots_ok (drop_bit 1 flags) rest" by simp
    note IH = Cons.IH [OF rest]
    show ?thesis
    proof (cases n)
      case None
      with Cons.prems have "flags AND 1 \<noteq> 1" by simp
      with pos None IH show ?thesis
        by (subst for_active.simps) (simp split: option.splits)
    next
      case (Some c)
      with Cons.prems have "flags AND 1 = 1" by simp
      with pos Some IH show ?thesis
        by (subst for_active.simps) (simp split: option.splits bool.splits prod.splits)
    qed
  qed
qed

lemma active_ok_Nodes: "active_ok qt \<Longrightarrow> slots_ok (m_ActiveNodes qt) (Nodes qt)"
  by (cases qt) simp

lemma active_ok_child: "active_ok qt \<Longrightarrow> Some c \<in> set (Nodes qt) \<Longrightarrow> active_ok c"
  by (cases qt) (auto split: option.splits)

lemma dfs_objects_eq:
  "dfs_objects qt =
     m_Objects qt @ concat (map (\<lambda>n. case n of None \<Rightarrow> [] | Some c \<Rightarrow> dfs_objects c) (Nodes qt))"
  by (cases qt) simp




lemma collectIntersected_append:
  "collectIntersected target (xs @ ys) objects =
     collectIntersected target ys (collectIntersected target xs objects)"
  by (simp add: collectIntersected_def)




subsection \<open>All intersecting pairs\<close>



















subsection \<open>Remove\<close>

lemma removeObject_None:
  "(removeObject target xs = None) = (\<forall>x \<in> set xs. ref x \<noteq> ref target)"
  by (induction xs) auto

lemma removeObject_Some:
  "removeObject target xs = Some xs' \<Longrightarrow>
   \<exists>l1 x l2. xs = l1 @ x # l2 \<and> ref x = ref target \<and>
     (\<forall>y \<in> set l1. ref y \<noteq> ref target) \<and> xs' = l1 @ l2"
proof (induction xs arbitrary: xs')
  case Nil
  then show ?case by simp
next
  case (Cons a xs)
  show ?case
  proof (cases "ref a = ref target")
    case True
    with Cons.prems have "xs' = xs" by simp
    with True show ?thesis by (intro exI [of _ "[]"] exI [of _ a] exI [of _ xs]) simp
  next
    case False
    with Cons.prems obtain r where r: "removeObject target xs = Some r" "xs' = a # r"
      by auto
    from Cons.IH [OF r(1)] obtain l1 x l2 where
      "xs = l1 @ x # l2" "ref x = ref target" "\<forall>y \<in> set l1. ref y \<noteq> ref target" "r = l1 @ l2"
      by blast
    with False r(2) show ?thesis
      by (intro exI [of _ "a # l1"] exI [of _ x] exI [of _ l2]) simp
  qed
qed

lemma removed_first_here:
  "removeObject target xs = Some xs' \<Longrightarrow> removed_first target (xs # post) (xs' # post)"
  unfolding removed_first_def
  using removeObject_Some [of target xs xs']
  by (metis append_Nil concat.simps(1) empty_iff set_empty2 Un_iff)

lemma removed_first_appendR:
  "removed_first target ls ls' \<Longrightarrow> removed_first target (ls @ more) (ls' @ more)"
  unfolding removed_first_def
  by (metis append_Cons append_assoc)

lemma removed_first_appendL:
  "removed_first target ls ls' \<Longrightarrow> \<forall>y \<in> set (concat front). ref y \<noteq> ref target \<Longrightarrow>
   removed_first target (front @ ls) (front @ ls')"
proof -
  assume "removed_first target ls ls'" and f: "\<forall>y \<in> set (concat front). ref y \<noteq> ref target"
  then obtain pre l1 x l2 post where
    h: "ls = pre @ (l1 @ x # l2) # post" "ref x = ref target"
       "\<forall>y \<in> set (concat pre) \<union> set l1. ref y \<noteq> ref target" "ls' = pre @ (l1 @ l2) # post"
    unfolding removed_first_def by blast
  show ?thesis
    unfolding removed_first_def
    using h f
    by (intro exI [of _ "front @ pre"] exI [of _ l1] exI [of _ x] exI [of _ l2] exI [of _ post])
       auto
qed

lemma concat_node_lists: "concat (node_lists qt) = dfs_objects qt"
proof (induction qt rule: Quadtree.induct)
  case (Quadtree b mo ml lv objs ns act cl mls)
  have "concat (concat (map (\<lambda>n. case n of None \<Rightarrow> [] | Some c \<Rightarrow> node_lists c) ns))
        = concat (map (\<lambda>n. case n of None \<Rightarrow> [] | Some c \<Rightarrow> dfs_objects c) ns)"
    using Quadtree.IH
  proof (induction ns)
    case Nil
    show ?case by simp
  next
    case (Cons n rest)
    then show ?case by (cases n) auto
  qed
  then show ?case by simp
qed

lemma active_ok_skeleton: "active_ok (skeleton qt) = active_ok qt"
proof (induction qt rule: Quadtree.induct)
  case (Quadtree b mo ml lv objs ns act cl mls)
  have s: "\<And>flags. slots_ok flags (map (map_option skeleton) ns) = slots_ok flags ns"
  proof (induction ns)
    case Nil
    show ?case by simp
  next
    case (Cons n rest)
    then show ?case by (cases n) auto
  qed
  have c: "\<And>n. n \<in> set ns \<Longrightarrow>
            (case n of None \<Rightarrow> True | Some c \<Rightarrow> active_ok (skeleton c))
          = (case n of None \<Rightarrow> True | Some c \<Rightarrow> active_ok c)"
    using Quadtree.IH by (auto split: option.splits)
  show ?case using Quadtree.IH by (auto simp: s split: option.splits)
qed

lemma Remove_slots:
  fixes target
  defines "body \<equiv> (\<lambda>(index :: nat) child (_ :: bool).
                     case Remove child target of
                       None \<Rightarrow> None
                     | Some (removed, child') \<Rightarrow> Some (removed, removed, child'))"
  assumes "\<And>c. Some c \<in> set ns \<Longrightarrow> Remove_spec c target"
  shows "if \<exists>x \<in> set (concat (map (\<lambda>n. case n of None \<Rightarrow> [] | Some c \<Rightarrow> dfs_objects c) ns)).
              ref x = ref target
         then \<exists>ns'. for_slots i ns body False = Some (True, ns') \<and>
                map (map_option skeleton) ns' = map (map_option skeleton) ns \<and>
                removed_first target
                  (concat (map (\<lambda>n. case n of None \<Rightarrow> [] | Some c \<Rightarrow> node_lists c) ns))
                  (concat (map (\<lambda>n. case n of None \<Rightarrow> [] | Some c \<Rightarrow> node_lists c) ns'))
         else for_slots i ns body False = Some (False, ns)"
  using assms(2)
proof (induction ns arbitrary: i)
  case Nil
  show ?case by simp
next
  case (Cons n rest)
  have IH: "if \<exists>x \<in> set (concat (map (\<lambda>n. case n of None \<Rightarrow> [] | Some c \<Rightarrow> dfs_objects c) rest)).
              ref x = ref target
         then \<exists>ns'. for_slots (i + 1) rest body False = Some (True, ns') \<and>
                map (map_option skeleton) ns' = map (map_option skeleton) rest \<and>
                removed_first target
                  (concat (map (\<lambda>n. case n of None \<Rightarrow> [] | Some c \<Rightarrow> node_lists c) rest))
                  (concat (map (\<lambda>n. case n of None \<Rightarrow> [] | Some c \<Rightarrow> node_lists c) ns'))
         else for_slots (i + 1) rest body False = Some (False, rest)"
    using Cons by simp
  show ?case
  proof (cases n)
    case None
    with IH show ?thesis by (auto split: if_splits)
  next
    case (Some c)
    have spec: "Remove_spec c target" using Cons.prems Some by simp
    show ?thesis
    proof (cases "\<exists>x \<in> set (dfs_objects c). ref x = ref target")
      case True
      with spec obtain c' where c': "Remove c target = Some (True, c')"
        "skeleton c' = skeleton c" "removed_first target (node_lists c) (node_lists c')"
        unfolding Remove_spec_def by auto
      have "for_slots i (n # rest) body False = Some (True, Some c' # rest)"
        using Some c'(1) by (simp add: body_def)
      moreover have "removed_first target
          (concat (map (\<lambda>n. case n of None \<Rightarrow> [] | Some c \<Rightarrow> node_lists c) (n # rest)))
          (concat (map (\<lambda>n. case n of None \<Rightarrow> [] | Some c \<Rightarrow> node_lists c) (Some c' # rest)))"
        using Some removed_first_appendR [OF c'(3)] by simp
      ultimately show ?thesis using True Some c'(2) by auto
    next
      case False
      note notc = False
      with spec have same: "Remove c target = Some (False, c)"
        unfolding Remove_spec_def by simp
      have front: "\<forall>y \<in> set (concat (node_lists c)). ref y \<noteq> ref target"
        using notc by (simp add: concat_node_lists)
      show ?thesis
      proof (cases "\<exists>x \<in> set (concat (map (\<lambda>n. case n of None \<Rightarrow> [] | Some c \<Rightarrow> dfs_objects c) rest)).
              ref x = ref target")
        case True
        with IH obtain ns' where ns': "for_slots (i + 1) rest body False = Some (True, ns')"
          "map (map_option skeleton) ns' = map (map_option skeleton) rest"
          "removed_first target
                  (concat (map (\<lambda>n. case n of None \<Rightarrow> [] | Some c \<Rightarrow> node_lists c) rest))
                  (concat (map (\<lambda>n. case n of None \<Rightarrow> [] | Some c \<Rightarrow> node_lists c) ns'))"
          by auto
        have "for_slots i (n # rest) body False = Some (True, Some c # ns')"
          using Some same ns'(1) by (simp add: body_def)
        moreover have "removed_first target
          (concat (map (\<lambda>n. case n of None \<Rightarrow> [] | Some c \<Rightarrow> node_lists c) (n # rest)))
          (concat (map (\<lambda>n. case n of None \<Rightarrow> [] | Some c \<Rightarrow> node_lists c) (Some c # ns')))"
          using Some removed_first_appendL [OF ns'(3) front] by simp
        ultimately show ?thesis using True Some ns'(2) by auto
      next
        case False
        note notrest = False
        have "for_slots (i + 1) rest body False = Some (False, rest)"
          using IH notrest by (auto split: if_splits)
        then have "for_slots i (n # rest) body False = Some (False, n # rest)"
          using Some same by (simp add: body_def)
        with notrest notc Some show ?thesis by auto
      qed
    qed
  qed
qed

lemma skeleton_set_Objects: "skeleton (set_Objects objs qt) = skeleton qt"
  by (cases qt) simp

lemma node_lists_eq:
  "node_lists qt =
     m_Objects qt # concat (map (\<lambda>n. case n of None \<Rightarrow> [] | Some c \<Rightarrow> node_lists c) (Nodes qt))"
  by (cases qt) simp

lemma Remove_meets_spec: "active_ok qt \<Longrightarrow> Remove_spec qt target"
proof (induction qt rule: Quadtree.induct)
  case (Quadtree b mo ml lv objs ns act cl mls)
  let ?qt = "Quadtree b mo ml lv objs ns act cl mls"
  let ?body = "\<lambda>(index :: nat) child (_ :: bool).
                     case Remove child target of
                       None \<Rightarrow> None
                     | Some (removed, child') \<Rightarrow> Some (removed, removed, child')"
  have ok: "slots_ok act ns" using Quadtree.prems by simp
  have children: "\<And>c. Some c \<in> set ns \<Longrightarrow> Remove_spec c target"
  proof -
    fix c assume c: "Some c \<in> set ns"
    then have "active_ok c" using Quadtree.prems by (auto split: option.splits)
    with c show "Remove_spec c target" using Quadtree.IH [of "Some c" c] by simp
  qed
  note slots = Remove_slots [OF children, of ns 0, simplified]
  show ?case
  proof (cases "removeObject target objs")
    case (Some objs')
    then have has: "\<exists>x \<in> set objs. ref x = ref target"
      using removeObject_None [of target objs] by auto
    have "Remove ?qt target = Some (True, Quadtree b mo ml lv objs' ns act cl mls)"
      unfolding Remove.simps [of ?qt target] using Some by simp
    moreover have "removed_first target (node_lists ?qt)
        (node_lists (Quadtree b mo ml lv objs' ns act cl mls))"
      using removed_first_here [OF Some] by simp
    ultimately show ?thesis
      unfolding Remove_spec_def using has by auto
  next
    case None
    then have no: "\<forall>x \<in> set objs. ref x \<noteq> ref target"
      by (simp add: removeObject_None)
    have loop: "for_active act 0 ns ?body False = for_slots 0 ns ?body False"
      by (rule for_active_slots [OF ok])
    show ?thesis
    proof (cases "\<exists>x \<in> set (concat (map (\<lambda>n. case n of None \<Rightarrow> [] | Some c \<Rightarrow> dfs_objects c) ns)).
              ref x = ref target")
      case True
      with Remove_slots [OF children, of ns 0] obtain ns' where
        ns': "for_slots 0 ns ?body False = Some (True, ns')"
          "map (map_option skeleton) ns' = map (map_option skeleton) ns"
          "removed_first target
             (concat (map (\<lambda>n. case n of None \<Rightarrow> [] | Some c \<Rightarrow> node_lists c) ns))
             (concat (map (\<lambda>n. case n of None \<Rightarrow> [] | Some c \<Rightarrow> node_lists c) ns'))"
        by auto
      have "Remove ?qt target = Some (True, Quadtree b mo ml lv objs ns' act cl mls)"
        unfolding Remove.simps [of ?qt target] using None loop ns'(1) by simp
      moreover have "removed_first target (node_lists ?qt)
          (node_lists (Quadtree b mo ml lv objs ns' act cl mls))"
        using removed_first_appendL [OF ns'(3), of "[objs]"] no by simp
      ultimately show ?thesis
        unfolding Remove_spec_def using True ns'(2) by auto
    next
      case False
      note notsub = False
      have "for_slots 0 ns ?body False = Some (False, ns)"
        using Remove_slots [OF children, of ns 0] notsub by (auto split: if_splits)
      then have "Remove ?qt target = Some (False, ?qt)"
        unfolding Remove.simps [of ?qt target] using None loop by simp
      then show ?thesis
        unfolding Remove_spec_def using no notsub by auto
    qed
  qed
qed

text \<open>
  C8. On a tree that satisfies the invariant \<open>Remove\<close> returns, and it returns true
  exactly when an object identical to the target is stored in the tree. When it returns
  false the tree is as before. When it returns true the tree without its objects is as
  before (no child pruned or created, no bit or counter changed) and the object lists of
  the nodes are as before but for one list, which has lost one element identical to the
  target: the first one in depth-first order.
\<close>

theorem Remove_first_occurrence:
  assumes "active_ok qt"
  shows "\<exists>removed qt'.
           Remove qt target = Some (removed, qt') \<and>
           (removed \<longleftrightarrow> (\<exists>x \<in> set (dfs_objects qt). ref x = ref target)) \<and>
           (\<not> removed \<longrightarrow> qt' = qt) \<and>
           (removed \<longrightarrow>
              skeleton qt' = skeleton qt \<and> active_ok qt' \<and>
              (\<exists>pre l1 x l2 post.
                 node_lists qt = pre @ (l1 @ x # l2) # post \<and> ref x = ref target \<and>
                 (\<forall>y \<in> set (concat pre) \<union> set l1. ref y \<noteq> ref target) \<and>
                 node_lists qt' = pre @ (l1 @ l2) # post))"
proof (cases "\<exists>x \<in> set (dfs_objects qt). ref x = ref target")
  case True
  with Remove_meets_spec [OF assms, of target] obtain qt' where
    r: "Remove qt target = Some (True, qt')" "skeleton qt' = skeleton qt"
       "removed_first target (node_lists qt) (node_lists qt')"
    unfolding Remove_spec_def by auto
  have "active_ok qt'" using active_ok_skeleton [of qt'] active_ok_skeleton [of qt] r(2) assms
    by simp
  with r True show ?thesis unfolding removed_first_def by auto
next
  case False
  with Remove_meets_spec [OF assms, of target] have "Remove qt target = Some (False, qt)"
    unfolding Remove_spec_def by simp
  with False show ?thesis by auto
qed

theorem Remove_first_occurrence_witness:
  "active_ok (Quadtree (Bounds 0 0 4 4) 1 10 0 []
      [Some (Quadtree (Bounds 0 0 2 2) 1 10 1 [PhysicalObject 0 (3 / 2) 0 (1 / 2) 1]
               [None, None, None, None] 0 (- 1) 64),
       Some (Quadtree (Bounds 2 0 2 2) 1 10 1 [PhysicalObject 1 2 (1 / 4) 2 1]
               [None, None, None, None] 0 (- 1) 64),
       None, None] 3 (- 1) 64)
   \<and> Remove (Quadtree (Bounds 0 0 4 4) 1 10 0 []
      [Some (Quadtree (Bounds 0 0 2 2) 1 10 1 [PhysicalObject 0 (3 / 2) 0 (1 / 2) 1]
               [None, None, None, None] 0 (- 1) 64),
       Some (Quadtree (Bounds 2 0 2 2) 1 10 1 [PhysicalObject 1 2 (1 / 4) 2 1]
               [None, None, None, None] 0 (- 1) 64),
       None, None] 3 (- 1) 64) (PhysicalObject 1 2 (1 / 4) 2 1)
     = Some (True, Quadtree (Bounds 0 0 4 4) 1 10 0 []
      [Some (Quadtree (Bounds 0 0 2 2) 1 10 1 [PhysicalObject 0 (3 / 2) 0 (1 / 2) 1]
               [None, None, None, None] 0 (- 1) 64),
       Some (Quadtree (Bounds 2 0 2 2) 1 10 1 []
               [None, None, None, None] 0 (- 1) 64),
       None, None] 3 (- 1) 64)
   \<and> Remove (Quadtree (Bounds 0 0 4 4) 1 10 0 []
      [Some (Quadtree (Bounds 0 0 2 2) 1 10 1 [PhysicalObject 0 (3 / 2) 0 (1 / 2) 1]
               [None, None, None, None] 0 (- 1) 64),
       Some (Quadtree (Bounds 2 0 2 2) 1 10 1 [PhysicalObject 1 2 (1 / 4) 2 1]
               [None, None, None, None] 0 (- 1) 64),
       None, None] 3 (- 1) 64) (PhysicalObject 7 2 (1 / 4) 2 1)
     = Some (False, Quadtree (Bounds 0 0 4 4) 1 10 0 []
      [Some (Quadtree (Bounds 0 0 2 2) 1 10 1 [PhysicalObject 0 (3 / 2) 0 (1 / 2) 1]
               [None, None, None, None] 0 (- 1) 64),
       Some (Quadtree (Bounds 2 0 2 2) 1 10 1 [PhysicalObject 1 2 (1 / 4) 2 1]
               [None, None, None, None] 0 (- 1) 64),
       None, None] 3 (- 1) 64)"
proof -
  let ?t = "Quadtree (Bounds 0 0 4 4) 1 10 0 []
      [Some (Quadtree (Bounds 0 0 2 2) 1 10 1 [PhysicalObject 0 (3 / 2) 0 (1 / 2) 1]
               [None, None, None, None] 0 (- 1) 64),
       Some (Quadtree (Bounds 2 0 2 2) 1 10 1 [PhysicalObject 1 2 (1 / 4) 2 1]
               [None, None, None, None] 0 (- 1) 64),
       None, None] 3 (- 1) 64"
  have ok: "active_ok ?t" by simp
  have found: "Remove ?t (PhysicalObject 1 2 (1 / 4) 2 1)
     = Some (True, Quadtree (Bounds 0 0 4 4) 1 10 0 []
      [Some (Quadtree (Bounds 0 0 2 2) 1 10 1 [PhysicalObject 0 (3 / 2) 0 (1 / 2) 1]
               [None, None, None, None] 0 (- 1) 64),
       Some (Quadtree (Bounds 2 0 2 2) 1 10 1 []
               [None, None, None, None] 0 (- 1) 64),
       None, None] 3 (- 1) 64)"
    by (simp add: Remove.simps for_active.simps)
  have absent: "Remove ?t (PhysicalObject 7 2 (1 / 4) 2 1) = Some (False, ?t)"
    using Remove_first_occurrence [OF ok, of "PhysicalObject 7 2 (1 / 4) 2 1"] by auto
  from ok found absent show ?thesis by simp
qed

subsection \<open>The queries leave the tree as it is\<close>








subsection \<open>The invariant in the trees that the operations produce\<close>

text \<open>
  \<open>CreateQuadtree\<close> establishes the invariant \<open>active_ok\<close>, \<open>Build\<close> and \<open>Insert\<close> keep it,
  and \<open>Insert\<close> on a tree that satisfies it does not panic. \<open>Remove\<close> keeps it as well.
\<close>

lemma and_one_iff: "((w :: 8 word) AND 1 = 1) = bit w 0"
  by (simp add: and_one_eq bit_0 mod_2_eq_odd)

lemma and_push_bit_iff: "((w :: 8 word) AND push_bit k 1 = 0) = (\<not> bit w k)"
  by (metis and_exp_eq_0_iff_not_bit push_bit_of_1)

lemma slots_ok_iff:
  "slots_ok flags ns = (\<forall>i. bit flags i \<longleftrightarrow> (i < length ns \<and> ns ! i \<noteq> None))"
proof (induction ns arbitrary: flags)
  case Nil
  have "flags = 0" if "\<forall>i. \<not> bit flags i"
    using that by (intro bit_word_eqI) simp
  then show ?case by auto
next
  case (Cons n rest)
  have "(\<forall>i. bit flags i \<longleftrightarrow> (i < length (n # rest) \<and> (n # rest) ! i \<noteq> None))
      = ((bit flags 0 \<longleftrightarrow> n \<noteq> None) \<and>
         (\<forall>k. bit flags (Suc k) \<longleftrightarrow> (k < length rest \<and> rest ! k \<noteq> None)))"
    (is "?L = ?R")
  proof
    assume l: ?L
    show ?R using l [rule_format, of 0] l [rule_format, of "Suc _"] by simp
  next
    assume r: ?R
    show ?L
    proof
      fix i show "bit flags i \<longleftrightarrow> (i < length (n # rest) \<and> (n # rest) ! i \<noteq> None)"
        using r by (cases i) auto
    qed
  qed
  moreover have "\<And>k. bit (drop_bit 1 flags) k = bit flags (Suc k)"
    by (simp add: bit_drop_bit_eq)
  ultimately show ?case
    by (simp add: Cons.IH and_one_iff del: One_nat_def drop_bit_Suc)
qed

lemma slots_ok_activate:
  assumes "slots_ok flags ns" "i < length ns" "i < 8"
  shows "slots_ok (flags OR push_bit i 1) (ns[i := Some c])"
proof -
  have "\<And>j. bit (flags OR push_bit i 1) j = (bit flags j \<or> j = i)"
    using assms(3) by (auto simp: bit_simps)
  with assms show ?thesis
    unfolding slots_ok_iff by (auto simp: nth_list_update)
qed

lemma slots_ok_replace:
  assumes "slots_ok flags ns" "i < length ns" "ns ! i \<noteq> None"
  shows "slots_ok flags (ns[i := Some c])"
  using assms unfolding slots_ok_iff by (auto simp: nth_list_update)

lemma slots_ok_bit:
  "slots_ok flags ns \<Longrightarrow>
   (flags AND push_bit i 1 = 0) = (\<not> (i < length ns \<and> ns ! i \<noteq> None))"
  unfolding slots_ok_iff and_push_bit_iff by simp


lemma active_ok_eq:
  "active_ok qt =
     (length (Nodes qt) = 4 \<and> slots_ok (m_ActiveNodes qt) (Nodes qt) \<and>
      (\<forall>c. Some c \<in> set (Nodes qt) \<longrightarrow> active_ok c))"
  by (cases qt) (auto split: option.splits)

lemma active_ok_CreateQuadtree: "active_ok (CreateQuadtree bounds mo ml objs)"
  by (simp add: CreateQuadtree_def)

lemma active_ok_createSubtree: "active_ok (createSubtree qt bounds objs)"
  by (simp add: createSubtree_def)

lemma active_ok_set_Objects: "active_ok (set_Objects objs qt) = active_ok qt"
  by (cases qt) simp

lemma active_ok_activate:
  assumes "active_ok qt" "active_ok c" "i < 4"
  shows "active_ok (activate i c qt)"
proof -
  from assms(1) have q: "length (Nodes qt) = 4" "slots_ok (m_ActiveNodes qt) (Nodes qt)"
    "\<And>d. Some d \<in> set (Nodes qt) \<Longrightarrow> active_ok d"
    using active_ok_eq [of qt] by auto
  have "slots_ok (m_ActiveNodes qt OR push_bit i 1) ((Nodes qt)[i := Some c])"
    using q assms(3) by (intro slots_ok_activate) auto
  moreover have "\<And>d. Some d \<in> set ((Nodes qt)[i := Some c]) \<Longrightarrow> active_ok d"
    using q(3) assms(2) by (auto dest!: set_update_subset_insert [THEN subsetD])
  ultimately show ?thesis
    using q(1) by (subst active_ok_eq) (simp add: activate_def)
qed

lemma active_ok_fold_activate:
  "active_ok q \<Longrightarrow> (\<And>i. i \<in> set is \<Longrightarrow> P i \<Longrightarrow> i < 4 \<and> active_ok (f i)) \<Longrightarrow>
   active_ok (fold (\<lambda>i q. if P i then activate i (f i) q else q) is q)"
  by (induction "is" arbitrary: q) (auto simp: active_ok_activate)

lemma active_ok_Build: "active_ok qt \<Longrightarrow> active_ok (Build qt)"
proof (induction qt rule: Build.induct)
  case (1 qt)
  show ?case
  proof (cases "int (length (m_Objects qt)) \<le> MaxObjects qt \<or> Level qt \<ge> MaxLevels qt")
    case True
    with 1 show ?thesis by (simp add: Build.simps)
  next
    case False
    let ?bucket = "\<lambda>i. filter (\<lambda>obj. quadrantIndex (qBounds qt) obj = int i) (m_Objects qt)"
    have kids: "\<And>i. i \<in> set [0, 1, 2, 3 :: nat] \<Longrightarrow> length (?bucket i) > 0 \<Longrightarrow>
        i < 4 \<and> active_ok (Build (createSubtree qt (subBounds (qBounds qt) i) (?bucket i)))"
      using "1.IH" [OF False _ refl] active_ok_createSubtree by auto
    have "active_ok (fold (\<lambda>i q. if length (?bucket i) > 0
             then activate i (Build (createSubtree qt (subBounds (qBounds qt) i) (?bucket i))) q else q)
            [0, 1, 2, 3]
            (set_Objects (filter (\<lambda>obj. quadrantIndex (qBounds qt) obj = - 1) (m_Objects qt)) qt))"
      using "1.prems" kids
      by (intro active_ok_fold_activate) (simp_all add: active_ok_set_Objects)
    then show ?thesis
      by (subst Build.simps) (simp add: False Let_def del: One_nat_def)
  qed
qed


lemma quadrantIndex_range: "quadrantIndex b obj \<in> {- 1, 0, 1, 2, 3}"
  by (simp add: quadrantIndex_def Let_def)

lemma active_ok_replace_child:
  assumes "active_ok qt" "nodeAt (Nodes qt) i = Some child" "active_ok child'"
  shows "active_ok (set_Nodes ((Nodes qt)[i := Some child']) qt)"
proof -
  from assms(1) have q: "length (Nodes qt) = 4" "slots_ok (m_ActiveNodes qt) (Nodes qt)"
    "\<And>d. Some d \<in> set (Nodes qt) \<Longrightarrow> active_ok d"
    using active_ok_eq [of qt] by auto
  from assms(2) have i: "i < length (Nodes qt)" "Nodes qt ! i \<noteq> None"
    by (auto simp: nodeAt_def split: if_splits)
  have "slots_ok (m_ActiveNodes qt) ((Nodes qt)[i := Some child'])"
    using q(2) i by (rule slots_ok_replace)
  moreover have "\<And>d. Some d \<in> set ((Nodes qt)[i := Some child']) \<Longrightarrow> active_ok d"
    using q(3) assms(3) by (auto dest!: set_update_subset_insert [THEN subsetD])
  ultimately show ?thesis
    using q(1) by (subst active_ok_eq) simp
qed

lemma Insert_total: "active_ok qt \<Longrightarrow> \<exists>qt'. Insert qt physical = Some qt' \<and> active_ok qt'"
proof (induction qt physical rule: Insert.induct)
  case (1 qt physical)
  show ?case
  proof (cases "m_ActiveNodes qt = 0")
    case True
    with "1.prems" show ?thesis
      by (subst Insert.simps) (simp add: Let_def active_ok_set_Objects active_ok_Build)
  next
    case False
    let ?index = "quadrantIndex (qBounds qt) physical"
    show ?thesis
    proof (cases "?index = - 1")
      case True
      with False "1.prems" show ?thesis
        by (subst Insert.simps) (simp add: Let_def active_ok_set_Objects)
    next
      case notstay: False
      let ?i = "nat ?index"
      let ?fresh = "createSubtree qt (subBounds (qBounds qt) ?i) []"
      let ?qt1 = "if m_ActiveNodes qt AND push_bit ?i 1 = 0 then activate ?i ?fresh qt else qt"
      have i4: "?i < 4" using quadrantIndex_range [of "qBounds qt" physical] notstay by auto
      from "1.prems" have len: "length (Nodes qt) = 4"
        and ok: "slots_ok (m_ActiveNodes qt) (Nodes qt)"
        using active_ok_eq [of qt] by auto
      have ok1: "active_ok ?qt1"
        using "1.prems" i4 by (simp add: active_ok_activate active_ok_createSubtree)
      have "\<exists>child. nodeAt (Nodes ?qt1) ?i = Some child \<and> active_ok child"
      proof (cases "m_ActiveNodes qt AND push_bit ?i 1 = 0")
        case True
        then have "nodeAt (Nodes ?qt1) ?i = Some ?fresh"
          using len i4 by (simp add: activate_def nodeAt_def)
        then show ?thesis using active_ok_createSubtree by blast
      next
        case set: False
        with slots_ok_bit [OF ok, of ?i] obtain child where
          c: "nodeAt (Nodes qt) ?i = Some child" by (auto simp: nodeAt_def)
        then have "?i < length (Nodes qt)" "Nodes qt ! ?i = Some child"
          by (auto simp: nodeAt_def split: if_splits)
        then have "Some child \<in> set (Nodes qt)" by (metis nth_mem)
        then have "active_ok child" using "1.prems" active_ok_eq [of qt] by blast
        note c
        moreover note \<open>active_ok child\<close>
        ultimately show ?thesis using set by auto
      qed
      then obtain child where child: "nodeAt (Nodes ?qt1) ?i = Some child" "active_ok child"
        by blast
      from "1.IH" [OF False refl notstay refl child(1) child(2)]
      obtain child' where child': "Insert child physical = Some child'" "active_ok child'"
        by blast
      have "Insert qt physical = Some (set_Nodes ((Nodes ?qt1)[?i := Some child']) ?qt1)"
        using False notstay child(1) child'(1)
        by (subst Insert.simps) (simp add: Let_def)
      moreover have "active_ok (set_Nodes ((Nodes ?qt1)[?i := Some child']) ?qt1)"
        using ok1 child(1) child'(2) by (rule active_ok_replace_child)
      ultimately show ?thesis by blast
    qed
  qed
qed

lemma active_ok_Remove:
  assumes "active_ok qt" "Remove qt target = Some (removed, qt')"
  shows "active_ok qt'"
proof -
  have "skeleton qt' = skeleton qt"
    using Remove_meets_spec [OF assms(1), of target] assms(2)
    by (auto simp: Remove_spec_def split: if_splits)
  then show ?thesis
    using assms(1) active_ok_skeleton [of qt] active_ok_skeleton [of qt'] by simp
qed

subsection \<open>Objects at nodes with children, by the classification of the source\<close>

text \<open>
  With \<open>quadrantIndex\<close>, the classification that the source computes, in place of the
  one of the specification, the property holds of a fresh tree and is kept by \<open>Build\<close>
  and by \<open>Insert\<close>.
\<close>

lemma straddle_ok_eq:
  "straddle_ok qt =
     ((m_ActiveNodes qt \<noteq> 0 \<longrightarrow> (\<forall>obj \<in> set (m_Objects qt). quadrantIndex (qBounds qt) obj = - 1)) \<and>
      (\<forall>c. Some c \<in> set (Nodes qt) \<longrightarrow> straddle_ok c))"
  by (cases qt) (auto split: option.splits)

lemma straddle_ok_createSubtree: "straddle_ok (createSubtree qt bounds objs)"
  by (simp add: createSubtree_def)

lemma straddle_ok_CreateQuadtree: "straddle_ok (CreateQuadtree bounds mo ml objs)"
  by (simp add: CreateQuadtree_def)

lemma straddle_ok_activate:
  assumes "straddle_ok qt" "straddle_ok c"
    "\<forall>obj \<in> set (m_Objects qt). quadrantIndex (qBounds qt) obj = - 1"
  shows "straddle_ok (activate i c qt)"
proof -
  have "\<And>d. Some d \<in> set ((Nodes qt)[i := Some c]) \<Longrightarrow> straddle_ok d"
    using assms(1,2) straddle_ok_eq [of qt]
    by (auto dest!: set_update_subset_insert [THEN subsetD])
  then show ?thesis
    using assms(3) by (subst straddle_ok_eq) (simp add: activate_def)
qed

lemma straddle_ok_fold_activate:
  "straddle_ok q \<Longrightarrow> \<forall>obj \<in> set (m_Objects q). quadrantIndex (qBounds q) obj = - 1 \<Longrightarrow>
   (\<And>i. i \<in> set is \<Longrightarrow> P i \<Longrightarrow> straddle_ok (f i)) \<Longrightarrow>
   straddle_ok (fold (\<lambda>i q. if P i then activate i (f i) q else q) is q)"
  by (induction "is" arbitrary: q) (auto simp: straddle_ok_activate)

lemma straddle_ok_Build: "straddle_ok qt \<Longrightarrow> straddle_ok (Build qt)"
proof (induction qt rule: Build.induct)
  case (1 qt)
  show ?case
  proof (cases "int (length (m_Objects qt)) \<le> MaxObjects qt \<or> Level qt \<ge> MaxLevels qt")
    case True
    with 1 show ?thesis by (simp add: Build.simps)
  next
    case False
    let ?bucket = "\<lambda>i. filter (\<lambda>obj. quadrantIndex (qBounds qt) obj = int i) (m_Objects qt)"
    let ?kept = "set_Objects (filter (\<lambda>obj. quadrantIndex (qBounds qt) obj = - 1) (m_Objects qt)) qt"
    have kids: "\<And>i. i \<in> set [0, 1, 2, 3 :: nat] \<Longrightarrow> length (?bucket i) > 0 \<Longrightarrow>
        straddle_ok (Build (createSubtree qt (subBounds (qBounds qt) i) (?bucket i)))"
      using "1.IH" [OF False _ refl] straddle_ok_createSubtree by auto
    have kept: "straddle_ok ?kept"
      using "1.prems" straddle_ok_eq [of qt] by (subst straddle_ok_eq) simp
    have "straddle_ok (fold (\<lambda>i q. if length (?bucket i) > 0
             then activate i (Build (createSubtree qt (subBounds (qBounds qt) i) (?bucket i))) q else q)
            [0, 1, 2, 3] ?kept)"
      using kept kids by (intro straddle_ok_fold_activate) simp_all
    then show ?thesis
      by (subst Build.simps) (simp add: False Let_def del: One_nat_def)
  qed
qed

lemma straddle_ok_Insert:
  "straddle_ok qt \<Longrightarrow> Insert qt physical = Some qt' \<Longrightarrow> straddle_ok qt'"
proof (induction qt physical arbitrary: qt' rule: Insert.induct)
  case (1 qt physical)
  show ?case
  proof (cases "m_ActiveNodes qt = 0")
    case True
    have "straddle_ok (set_Objects (m_Objects qt @ [physical]) qt)"
      using "1.prems"(1) True straddle_ok_eq [of qt] by (subst straddle_ok_eq) simp
    with "1.prems"(2) True show ?thesis
      by (subst (asm) Insert.simps) (auto simp: Let_def straddle_ok_Build split: if_splits)
  next
    case False
    let ?index = "quadrantIndex (qBounds qt) physical"
    from "1.prems"(1) False have objs: "\<forall>obj \<in> set (m_Objects qt). quadrantIndex (qBounds qt) obj = - 1"
      using straddle_ok_eq [of qt] by simp
    show ?thesis
    proof (cases "?index = - 1")
      case True
      have "straddle_ok (set_Objects (m_Objects qt @ [physical]) qt)"
        using "1.prems"(1) True objs straddle_ok_eq [of qt] by (subst straddle_ok_eq) simp
      with "1.prems"(2) True False show ?thesis
        by (subst (asm) Insert.simps) (simp add: Let_def)
    next
      case notstay: False
      let ?i = "nat ?index"
      let ?fresh = "createSubtree qt (subBounds (qBounds qt) ?i) []"
      define qt1 where
        "qt1 = (if m_ActiveNodes qt AND push_bit ?i 1 = 0 then activate ?i ?fresh qt else qt)"
      have ok1: "straddle_ok qt1"
        using "1.prems"(1) objs
        by (simp add: qt1_def straddle_ok_activate straddle_ok_createSubtree)
      have objs1: "\<forall>obj \<in> set (m_Objects qt1). quadrantIndex (qBounds qt1) obj = - 1"
        using objs by (simp add: qt1_def)
      from "1.prems"(2) False notstay obtain child child' where
        c: "nodeAt (Nodes qt1) ?i = Some child" "Insert child physical = Some child'"
           "qt' = set_Nodes ((Nodes qt1)[?i := Some child']) qt1"
        by (subst (asm) Insert.simps) (auto simp: Let_def qt1_def split: option.splits)
      from c(1) have "Some child \<in> set (Nodes qt1)"
        by (auto simp: nodeAt_def split: if_splits) (metis nth_mem)
      then have "straddle_ok child" using ok1 straddle_ok_eq [of qt1] by blast
      from "1.IH" [OF False refl notstay qt1_def c(1) this c(2)] have "straddle_ok child'" .
      moreover have "\<And>d. Some d \<in> set ((Nodes qt1)[?i := Some child']) \<Longrightarrow>
          d = child' \<or> Some d \<in> set (Nodes qt1)"
        by (auto dest!: set_update_subset_insert [THEN subsetD])
      ultimately have "straddle_ok (set_Nodes ((Nodes qt1)[?i := Some child']) qt1)"
        using ok1 objs1 straddle_ok_eq [of qt1]
        by (subst straddle_ok_eq) auto
      with c(3) show ?thesis by simp
    qed
  qed
qed

end
